theory Spec2Isabelle
  imports Main
begin

section \<open>BufferedDocument: a shallow embedding of BufferedDocument.js\<close>

text \<open>
  The class wraps a tracker (\<^verbatim>\<open>Document\<close>) and layers local edits on top of the
  tracker's snapshot \<^verbatim>\<open>document.EDGE\<close>. Snapshots are JavaScript objects or
  \<^verbatim>\<open>null\<close>; the code compares them by reference in \<^verbatim>\<open>add\<close>, by structure
  (lodash \<^verbatim>\<open>isEqual\<close>) in \<^verbatim>\<open>rebase\<close>, and writes the \<^verbatim>\<open>_rev\<close> property of an
  old snapshot in place. Snapshots therefore live in an explicit store: a reference is an
  address, \<^verbatim>\<open>null\<close> is \<open>None\<close>.
\<close>

subsection \<open>Objects and the store\<close>

type_synonym addr = nat

text \<open>
  The value of a \<^verbatim>\<open>_rev\<close> property. Reading a property an object does not own yields
  \<^verbatim>\<open>undefined\<close>; assigning \<^verbatim>\<open>undefined\<close> creates the property, and lodash's
  \<^verbatim>\<open>isEqual\<close> tells an object that owns a property holding \<^verbatim>\<open>undefined\<close> from one
  that does not own it (it compares the sets of own keys).
\<close>

datatype jsrev = Undefined | Rev nat

text \<open>
  A document object: its own \<^verbatim>\<open>_rev\<close> property (\<open>None\<close> when the object has no such
  key) and everything else (\<open>content\<close>).
\<close>

record 'c obj =
  rev_prop :: "jsrev option"
  content :: 'c

definition read_rev :: "'c obj \<Rightarrow> jsrev" where
  \<comment> \<open>the expression \<^verbatim>\<open>o._rev\<close>\<close>
  "read_rev ob = (case rev_prop ob of None \<Rightarrow> Undefined | Some v \<Rightarrow> v)"

definition write_rev :: "jsrev \<Rightarrow> 'c obj \<Rightarrow> 'c obj" where
  \<comment> \<open>the assignment \<^verbatim>\<open>o._rev = v\<close>\<close>
  "write_rev v ob = ob\<lparr>rev_prop := Some v\<rparr>"

type_synonym 'c heap = "addr \<Rightarrow> 'c obj"

definition val :: "'c heap \<Rightarrow> addr option \<Rightarrow> 'c obj option" where
  \<comment> \<open>the value a reference denotes: \<open>None\<close> for \<^verbatim>\<open>null\<close>\<close>
  "val h r = map_option h r"

definition isEqual :: "'c obj option \<Rightarrow> 'c obj option \<Rightarrow> bool" where
  \<comment> \<open>lodash \<^verbatim>\<open>isEqual\<close>: deep structural equality of the two values\<close>
  "isEqual a b = (a = b)"

subsection \<open>The mutation algebra (Mutation.js, not part of this source file)\<close>

text \<open>
  \<^verbatim>\<open>Mutation\<close> is imported by the source file and not part of it: its operations
  \<^verbatim>\<open>apply\<close>, \<^verbatim>\<open>squash\<close> and \<^verbatim>\<open>assignRandomTransactionId\<close> are a parameter of
  every operation below, and every theorem holds for any such algebra. The spec gives
  them as pure operations: an \<^verbatim>\<open>apply\<close> reads the value it is given and hands back
  either the very object it was given, or a newly built object, or \<^verbatim>\<open>null\<close>; which
  one is the algebra's choice and is visible to \<^verbatim>\<open>add\<close>, which compares references.
\<close>

datatype 'c outcome = Unchanged | Fresh "'c obj" | Null

record ('m, 'c) algebra =
  m_apply :: "'m \<Rightarrow> 'c obj option \<Rightarrow> 'c outcome"
  m_squash :: "'c obj option \<Rightarrow> 'm list \<Rightarrow> 'm"
  m_assignTransactionId :: "nat \<Rightarrow> 'm \<Rightarrow> 'm"

text \<open>A reference together with the store it points into and the next free address.\<close>

type_synonym 'c cursor = "addr option \<times> 'c heap \<times> addr"

definition apply_ref :: "('m, 'c) algebra \<Rightarrow> 'm \<Rightarrow> 'c cursor \<Rightarrow> 'c cursor" where
  \<comment> \<open>\<^verbatim>\<open>mutation.apply(doc)\<close> on references: a new object gets the next free
      address, and no existing object is written\<close>
  "apply_ref A m cur =
     (case cur of (r, h, n) \<Rightarrow>
        (case m_apply A m (val h r) of
           Unchanged \<Rightarrow> (r, h, n)
         | Fresh ob \<Rightarrow> (Some n, h(n := ob), Suc n)
         | Null \<Rightarrow> (None, h, n)))"

definition applyAll :: "('m, 'c) algebra \<Rightarrow> 'm list \<Rightarrow> 'c cursor \<Rightarrow> 'c cursor" where
  \<comment> \<open>Modelled from the spec: \<^verbatim>\<open>Mutation.applyAll(doc, mutations)\<close> replays the
      mutations in order\<close>
  "applyAll A ms cur = foldl (\<lambda>acc m. apply_ref A m acc) cur ms"

subsection \<open>Commit\<close>

record 'm commit =
  c_mutations :: "'m list"
  tries :: nat

definition new_Commit :: "'m list \<Rightarrow> 'm commit" where
  "new_Commit ms = \<lparr>c_mutations = ms, tries = 0\<rparr>"

definition commit_apply :: "('m, 'c) algebra \<Rightarrow> 'm commit \<Rightarrow> 'c cursor \<Rightarrow> 'c cursor" where
  "commit_apply A c cur = applyAll A (c_mutations c) cur"

definition commit_squash :: "('m, 'c) algebra \<Rightarrow> nat \<Rightarrow> 'm commit \<Rightarrow> 'c obj option \<Rightarrow> 'm" where
  \<comment> \<open>the random transaction id is the argument \<open>txn\<close>\<close>
  "commit_squash A txn c doc = m_assignTransactionId A txn (m_squash A doc (c_mutations c))"

subsection \<open>The engine's state\<close>

text \<open>
  What the engine tells the outside world, in the order it happens: calls of the caller's
  handlers, calls into the tracker, and calls of the transport. A handler is taken to
  return without calling back into the engine. The tracker's own reaction to a call is not
  part of this source file; when the tracker changes its snapshot and notifies the engine,
  that is a step of its own (\<open>handleDocMutation\<close>, \<open>handleDocRebase\<close>), taken after
  the operation that called the tracker has returned.
\<close>

datatype ('m, 'x) event =
    LocalMutation 'm "addr option" bool
      \<comment> \<open>\<^verbatim>\<open>onMutation({mutation, document, remote})\<close>\<close>
  | Forwarded 'x
      \<comment> \<open>\<^verbatim>\<open>onMutation(msg)\<close>, the tracker's message passed on\<close>
  | Rebased "addr option"
      \<comment> \<open>\<^verbatim>\<open>onRebase(LOCAL)\<close>\<close>
  | Deleted addr
      \<comment> \<open>\<^verbatim>\<open>onDelete(LOCAL)\<close>, only ever called with an object\<close>
  | TrackerReset "addr option"
  | TrackerArrive 'm
  | TrackerStage 'm bool
  | TrackerSuccess
  | TrackerFailure
  | Transport 'm
      \<comment> \<open>\<^verbatim>\<open>commitHandler({mutation, success, failure})\<close>\<close>

record ('m, 'c, 'x) bdoc =
  heap :: "'c heap"
  nxt :: addr
  EDGE :: "addr option"
  LOCAL :: "addr option"
  commits :: "'m commit list"
  mutations :: "'m list"
  committerRunning :: bool
  onMutation :: bool
  onRebase :: bool
  onDelete :: bool
  commitHandler :: bool
  inflight :: "'m commit list"
  timers :: "nat list"
  entropy :: nat
  trace :: "('m, 'x) event list"

text \<open>
  \<open>EDGE\<close> is \<^verbatim>\<open>document.EDGE\<close>, owned by the tracker and only read by the engine.
  The four handler fields say whether the caller has assigned the handler. \<open>inflight\<close>
  holds the commits captured by responder closures that were handed to the transport and
  not called back yet; \<open>timers\<close> the delays of the pending \<^verbatim>\<open>setTimeout\<close> calls;
  \<open>entropy\<close> is the source of the random transaction ids.
\<close>

definition construct :: "'c heap \<Rightarrow> addr \<Rightarrow> addr option \<Rightarrow> ('m, 'c, 'x) bdoc" where
  \<comment> \<open>\<^verbatim>\<open>new BufferedDocument(doc)\<close>: no handler is assigned yet. Modelled from the
      spec: \<^verbatim>\<open>new Document(doc)\<close> makes \<^verbatim>\<open>doc\<close> the tracker's snapshot\<close>
  "construct h n doc =
     \<lparr>heap = h, nxt = n, EDGE = doc, LOCAL = doc, commits = [], mutations = [],
      committerRunning = False, onMutation = False, onRebase = False, onDelete = False,
      commitHandler = False, inflight = [], timers = [], entropy = 0, trace = []\<rparr>"

definition emit :: "('m, 'x) event list \<Rightarrow> ('m, 'c, 'x) bdoc \<Rightarrow> ('m, 'c, 'x) bdoc" where
  "emit es s = s\<lparr>trace := trace s @ es\<rparr>"

subsection \<open>Deletion, rebase and the tracker's notifications\<close>

definition handleDocumentDeleted :: "('m, 'c, 'x) bdoc \<Rightarrow> ('m, 'c, 'x) bdoc" where
  "handleDocumentDeleted s =
     (emit (case LOCAL s of
              None \<Rightarrow> []
            | Some a \<Rightarrow> if onDelete s then [Deleted a] else []) s)
       \<lparr>commits := [], mutations := []\<rparr>"

definition purge :: "('m, 'c, 'x) bdoc \<Rightarrow> ('m, 'c, 'x) bdoc" where
  \<comment> \<open>\<^verbatim>\<open>if (this.document.EDGE === null) { this.handleDocumentDeleted() }\<close>, which both
      \<^verbatim>\<open>handleDocMutation\<close> and \<^verbatim>\<open>rebase\<close> run\<close>
  "purge s = (if EDGE s = None then handleDocumentDeleted s else s)"

definition recompute :: "('m, 'c) algebra \<Rightarrow> ('m, 'c, 'x) bdoc \<Rightarrow> 'c cursor" where
  \<comment> \<open>the two assignments to \<^verbatim>\<open>this.LOCAL\<close> in \<^verbatim>\<open>rebase\<close>\<close>
  "recompute A s =
     applyAll A (mutations s)
       (foldl (\<lambda>doc c. commit_apply A c doc) (EDGE s, heap s, nxt s) (commits s))"

definition copy_rev :: "addr option \<Rightarrow> addr option \<Rightarrow> 'c heap \<Rightarrow> 'c heap" where
  \<comment> \<open>\<^verbatim>\<open>if (oldLocal !== null && this.LOCAL !== null) oldLocal._rev = this.LOCAL._rev\<close>\<close>
  "copy_rev oldLocal newLocal h =
     (case oldLocal of
        None \<Rightarrow> h
      | Some a \<Rightarrow>
          (case newLocal of
             None \<Rightarrow> h
           | Some b \<Rightarrow> h(a := write_rev (read_rev (h b)) (h a))))"

definition rebase :: "('m, 'c) algebra \<Rightarrow> ('m, 'c, 'x) bdoc \<Rightarrow> ('m, 'c, 'x) bdoc" where
  "rebase A s =
     (let s1 = purge s;
          oldLocal = LOCAL s1
      in case recompute A s1 of (r, h, n) \<Rightarrow>
           (let h' = copy_rev oldLocal r h;
                changed = (\<not> isEqual (val h' r) (val h' oldLocal))
            in emit (if changed \<and> onRebase s1 then [Rebased r] else [])
                 (s1\<lparr>heap := h', nxt := n, LOCAL := r\<rparr>)))"

definition handleDocRebase :: "('m, 'c) algebra \<Rightarrow> 'x \<Rightarrow> ('m, 'c, 'x) bdoc \<Rightarrow> ('m, 'c, 'x) bdoc" where
  "handleDocRebase A msg s = rebase A s"

definition adopt :: "'x \<Rightarrow> ('m, 'c, 'x) bdoc \<Rightarrow> ('m, 'c, 'x) bdoc" where
  \<comment> \<open>the first \<^verbatim>\<open>if\<close> of \<^verbatim>\<open>handleDocMutation\<close>\<close>
  "adopt msg s =
     (if commits s = [] \<and> mutations s = []
      then emit (if onMutation s then [Forwarded msg] else []) (s\<lparr>LOCAL := EDGE s\<rparr>)
      else s)"

definition handleDocMutation :: "('m, 'c) algebra \<Rightarrow> 'x \<Rightarrow> ('m, 'c, 'x) bdoc \<Rightarrow> ('m, 'c, 'x) bdoc" where
  "handleDocMutation A msg s = rebase A (purge (adopt msg s))"

definition reset :: "('m, 'c) algebra \<Rightarrow> addr option \<Rightarrow> ('m, 'c, 'x) bdoc \<Rightarrow> ('m, 'c, 'x) bdoc" where
  \<comment> \<open>Modelled from the spec: \<^verbatim>\<open>document.reset(doc)\<close> replaces the tracker's snapshot\<close>
  "reset A doc s = rebase A (emit [TrackerReset doc] (s\<lparr>EDGE := doc\<rparr>))"

subsection \<open>Local edits and the committer\<close>

definition add :: "('m, 'c) algebra \<Rightarrow> 'm \<Rightarrow> ('m, 'c, 'x) bdoc \<Rightarrow> ('m, 'c, 'x) bdoc" where
  \<comment> \<open>\<^verbatim>\<open>oldLocal != this.LOCAL\<close> compares references\<close>
  "add A m s =
     (case apply_ref A m (LOCAL s, heap s, nxt s) of (r, h, n) \<Rightarrow>
        emit (if onMutation s \<and> LOCAL s \<noteq> r then [LocalMutation m r False] else [])
          (s\<lparr>mutations := mutations s @ [m], heap := h, nxt := n, LOCAL := r\<rparr>))"

definition arrive :: "'m \<Rightarrow> ('m, 'c, 'x) bdoc \<Rightarrow> ('m, 'c, 'x) bdoc" where
  \<comment> \<open>passed through to the tracker\<close>
  "arrive m s = emit [TrackerArrive m] s"

datatype error =
    NoCommitHandler
      \<comment> \<open>\<^verbatim>\<open>Error('No commitHandler configured for this BufferedDocument')\<close>\<close>
  | NotAFunction
      \<comment> \<open>the \<^verbatim>\<open>TypeError\<close> of calling \<^verbatim>\<open>this.commitHandler\<close> when none is assigned\<close>

text \<open>
  A call that throws leaves the state as it was when the exception was raised: the error
  side of a result carries that state.
\<close>

type_synonym ('m, 'c, 'x) result = "(error \<times> ('m, 'c, 'x) bdoc) + ('m, 'c, 'x) bdoc"

definition cycleCommitter :: "('m, 'c) algebra \<Rightarrow> ('m, 'c, 'x) bdoc \<Rightarrow> ('m, 'c, 'x) result" where
  \<comment> \<open>\<^verbatim>\<open>_cycleCommitter\<close>: the responder closure it hands to the transport captures
      \<open>c\<close>, which is recorded in \<open>inflight\<close>; the method itself does not check that a
      \<^verbatim>\<open>commitHandler\<close> is assigned\<close>
  "cycleCommitter A s =
     (case commits s of
        [] \<Rightarrow> Inr (s\<lparr>committerRunning := False\<rparr>)
      | c # cs \<Rightarrow>
          (let squashed = commit_squash A (entropy s) c (val (heap s) (LOCAL s));
               s1 = emit [TrackerStage squashed True]
                      (s\<lparr>committerRunning := True, commits := cs, entropy := Suc (entropy s)\<rparr>)
           in if commitHandler s
              then Inr (emit [Transport squashed] (s1\<lparr>inflight := inflight s @ [c]\<rparr>))
              else Inl (NotAFunction, s1)))"

definition performCommits :: "('m, 'c) algebra \<Rightarrow> ('m, 'c, 'x) bdoc \<Rightarrow> ('m, 'c, 'x) result" where
  "performCommits A s =
     (if \<not> commitHandler s then Inl (NoCommitHandler, s)
      else if committerRunning s then Inr s
      else cycleCommitter A s)"

definition commit :: "('m, 'c) algebra \<Rightarrow> ('m, 'c, 'x) bdoc \<Rightarrow> ('m, 'c, 'x) result" where
  "commit A s =
     (if mutations s = [] then Inr s
      else performCommits A
             (s\<lparr>commits := commits s @ [new_Commit (mutations s)], mutations := []\<rparr>))"

definition success :: "('m, 'c) algebra \<Rightarrow> 'm commit \<Rightarrow> ('m, 'c, 'x) bdoc \<Rightarrow> ('m, 'c, 'x) result" where
  \<comment> \<open>\<^verbatim>\<open>responder.success\<close> of the closure that captured \<open>c\<close>\<close>
  "success A c s =
     cycleCommitter A (emit [TrackerSuccess] (s\<lparr>inflight := remove1 c (inflight s)\<rparr>))"

definition failure :: "'m commit \<Rightarrow> ('m, 'c, 'x) bdoc \<Rightarrow> ('m, 'c, 'x) bdoc" where
  \<comment> \<open>\<^verbatim>\<open>responder.failure\<close> of the closure that captured \<open>c\<close>\<close>
  "failure c s =
     (let c' = c\<lparr>tries := tries c + 1\<rparr>;
          s1 = s\<lparr>inflight := remove1 c (inflight s)\<rparr>;
          s2 = (if LOCAL s1 \<noteq> None then s1\<lparr>commits := c' # commits s1\<rparr> else s1)
      in (emit [TrackerFailure] s2)\<lparr>timers := timers s2 @ [1000]\<rparr>)"

definition timeout :: "('m, 'c) algebra \<Rightarrow> ('m, 'c, 'x) bdoc \<Rightarrow> ('m, 'c, 'x) result" where
  \<comment> \<open>a pending timer fires: \<^verbatim>\<open>() => this._cycleCommitter()\<close>\<close>
  "timeout A s = cycleCommitter A (s\<lparr>timers := tl (timers s)\<rparr>)"

definition state_of :: "('m, 'c, 'x) result \<Rightarrow> ('m, 'c, 'x) bdoc" where
  \<comment> \<open>the state a call leaves behind, whether it returned or threw\<close>
  "state_of res = (case res of Inl (e, s) \<Rightarrow> s | Inr s \<Rightarrow> s)"

subsection \<open>Runs of the engine\<close>

text \<open>
  The engine runs single-threaded: between two of its operations the outside world may
  do anything it is entitled to. The caller assigns handlers and builds objects, the
  tracker replaces its snapshot; \<open>outside\<close> is such a change of the store, of
  \<^verbatim>\<open>document.EDGE\<close> and of the handlers. The transport answers a commit it was handed
  exactly once, with \<open>success\<close> or with \<open>failure\<close>, and a timer fires once.
\<close>

definition outside :: "'c heap \<Rightarrow> addr \<Rightarrow> addr option \<Rightarrow> bool \<Rightarrow> bool \<Rightarrow> bool \<Rightarrow> bool \<Rightarrow>
    ('m, 'c, 'x) bdoc \<Rightarrow> ('m, 'c, 'x) bdoc" where
  "outside h n e b1 b2 b3 b4 s =
     s\<lparr>heap := h, nxt := n, EDGE := e, onMutation := b1, onRebase := b2, onDelete := b3,
       commitHandler := b4\<rparr>"

inductive reachable :: "('m, 'c) algebra \<Rightarrow> ('m, 'c, 'x) bdoc \<Rightarrow> bool"
  for A :: "('m, 'c) algebra" where
  r_construct: "reachable A (construct h n doc)"
| r_outside: "reachable A s \<Longrightarrow> reachable A (outside h n e b1 b2 b3 b4 s)"
| r_add: "reachable A s \<Longrightarrow> reachable A (add A m s)"
| r_arrive: "reachable A s \<Longrightarrow> reachable A (arrive m s)"
| r_commit: "reachable A s \<Longrightarrow> reachable A (state_of (commit A s))"
| r_performCommits: "reachable A s \<Longrightarrow> reachable A (state_of (performCommits A s))"
| r_reset: "reachable A s \<Longrightarrow> reachable A (reset A doc s)"
| r_handleDocMutation: "reachable A s \<Longrightarrow> reachable A (handleDocMutation A msg s)"
| r_handleDocRebase: "reachable A s \<Longrightarrow> reachable A (handleDocRebase A msg s)"
| r_success: "reachable A s \<Longrightarrow> c \<in> set (inflight s) \<Longrightarrow> reachable A (state_of (success A c s))"
| r_failure: "reachable A s \<Longrightarrow> c \<in> set (inflight s) \<Longrightarrow> reachable A (failure c s)"
| r_timeout: "reachable A s \<Longrightarrow> timers s \<noteq> [] \<Longrightarrow> reachable A (state_of (timeout A s))"

definition active_loops :: "('m, 'c, 'x) bdoc \<Rightarrow> nat" where
  \<comment> \<open>a committer loop is alive as long as one of its continuations is pending: a
      responder the transport has not called yet, or a retry timer\<close>
  "active_loops s = length (inflight s) + length (timers s)"

definition single_flight :: "('m, 'c, 'x) bdoc \<Rightarrow> bool" where
  \<comment> \<open>at most one loop, and none unless the flag is set\<close>
  "single_flight s = (active_loops s \<le> (if committerRunning s then 1 else 0))"

text \<open>
  What can happen between a failure and the retry, while nothing is with the transport: the
  caller's own calls, any change from outside, and the tracker's notifications, each with
  the store and the snapshot the tracker has at that moment.
\<close>

datatype ('m, 'c, 'x) call =
    Add 'm
  | Commit
  | PerformCommits
  | Arrive 'm
  | Outside "'c heap" addr "addr option" bool bool bool bool
  | Reset "addr option"
  | Mutated "'c heap" addr "addr option" 'x
  | Moved "'c heap" addr "addr option" 'x

fun exec :: "('m, 'c) algebra \<Rightarrow> ('m, 'c, 'x) call \<Rightarrow> ('m, 'c, 'x) bdoc \<Rightarrow> ('m, 'c, 'x) bdoc" where
  "exec A (Add m) s = add A m s"
| "exec A Commit s = state_of (commit A s)"
| "exec A PerformCommits s = state_of (performCommits A s)"
| "exec A (Arrive m) s = arrive m s"
| "exec A (Outside h n e b1 b2 b3 b4) s = outside h n e b1 b2 b3 b4 s"
| "exec A (Reset doc) s = reset A doc s"
| "exec A (Mutated h n e msg) s = handleDocMutation A msg (s\<lparr>heap := h, nxt := n, EDGE := e\<rparr>)"
| "exec A (Moved h n e msg) s = handleDocRebase A msg (s\<lparr>heap := h, nxt := n, EDGE := e\<rparr>)"

fun deletes :: "('m, 'c, 'x) call \<Rightarrow> bool" where
  \<comment> \<open>the steps that make the engine see a deleted document and purge its queue\<close>
  "deletes (Reset doc) = (doc = None)"
| "deletes (Mutated h n e msg) = (e = None)"
| "deletes (Moved h n e msg) = (e = None)"
| "deletes x = False"

definition run :: "('m, 'c) algebra \<Rightarrow> ('m, 'c, 'x) call list \<Rightarrow> ('m, 'c, 'x) bdoc \<Rightarrow> ('m, 'c, 'x) bdoc" where
  "run A cs s = foldl (\<lambda>s c. exec A c s) s cs"

fun transported :: "('m, 'x) event \<Rightarrow> 'm list" where
  "transported (Transport m) = [m]"
| "transported e = []"

definition attempts :: "('m, 'c, 'x) bdoc \<Rightarrow> 'm list" where
  \<comment> \<open>the operations handed to the transport so far, in order\<close>
  "attempts s = concat (map transported (trace s))"

fun staging :: "('m, 'x) event \<Rightarrow> 'm list" where
  "staging (TrackerStage m b) = [m]"
| "staging e = []"

definition staged :: "('m, 'c, 'x) bdoc \<Rightarrow> 'm list" where
  \<comment> \<open>the operations staged with the tracker so far, in order\<close>
  "staged s = concat (map staging (trace s))"

text \<open>
  Between a failure and the retry: the committer is running, nothing is with the
  transport, one timer is pending, \<open>st\<close> has been staged and \<open>as\<close> handed to the
  transport so far, and \<open>c\<close> is at the head of the queue.
\<close>

definition waiting :: "'m commit \<Rightarrow> 'm list \<Rightarrow> 'm list \<Rightarrow> ('m, 'c, 'x) bdoc \<Rightarrow> bool" where
  "waiting c st as s =
     (committerRunning s \<and> inflight s = [] \<and> timers s = [1000] \<and>
      staged s = st \<and> attempts s = as \<and>
      (case commits s of [] \<Rightarrow> False | d # ds \<Rightarrow> d = c))"

subsection \<open>Values of snapshots\<close>

definition apply_val :: "('m, 'c) algebra \<Rightarrow> 'm \<Rightarrow> 'c obj option \<Rightarrow> 'c obj option" where
  \<comment> \<open>the value of \<^verbatim>\<open>mutation.apply(doc)\<close>\<close>
  "apply_val A m v = (case m_apply A m v of Unchanged \<Rightarrow> v | Fresh ob \<Rightarrow> Some ob | Null \<Rightarrow> None)"

definition pending :: "('m, 'c, 'x) bdoc \<Rightarrow> 'm list" where
  \<comment> \<open>the mutations of the queued commits in queue order, then the buffered ones\<close>
  "pending s = concat (map c_mutations (commits s)) @ mutations s"

definition allocated :: "addr \<Rightarrow> addr option \<Rightarrow> bool" where
  "allocated n r = (case r of None \<Rightarrow> True | Some a \<Rightarrow> a < n)"

definition wellformed :: "('m, 'c, 'x) bdoc \<Rightarrow> bool" where
  \<comment> \<open>both snapshots are \<^verbatim>\<open>null\<close> or objects that exist: new objects get new addresses\<close>
  "wellformed s = (allocated (nxt s) (LOCAL s) \<and> allocated (nxt s) (EDGE s))"

definition same_content :: "'c obj option \<Rightarrow> 'c obj option \<Rightarrow> bool" where
  \<comment> \<open>structurally equal with \<^verbatim>\<open>_rev\<close> disregarded\<close>
  "same_content v w =
     (case v of
        None \<Rightarrow> (case w of None \<Rightarrow> True | Some y \<Rightarrow> False)
      | Some x \<Rightarrow> (case w of None \<Rightarrow> False | Some y \<Rightarrow> content x = content y))"

definition owns_rev :: "'c obj option \<Rightarrow> bool" where
  \<comment> \<open>\<^verbatim>\<open>null\<close>, or an object with a \<^verbatim>\<open>_rev\<close> property of its own\<close>
  "owns_rev v = (case v of None \<Rightarrow> True | Some ob \<Rightarrow> rev_prop ob \<noteq> None)"

definition consistent :: "('m, 'c) algebra \<Rightarrow> ('m, 'c, 'x) bdoc \<Rightarrow> bool" where
  \<comment> \<open>the optimistic snapshot has the value of the tracker's snapshot with the queued
      commits and then the buffer applied\<close>
  "consistent A s =
     (val (heap s) (LOCAL s) = foldl (\<lambda>v m. apply_val A m v) (val (heap s) (EDGE s)) (pending s))"

subsection \<open>A small algebra to run the engine on\<close>

text \<open>
  The spec's scenario: documents \<^verbatim>\<open>{count: n}\<close> and the mutation
  \<^verbatim>\<open>incField("count", k)\<close>, here with an optional transaction id that becomes the
  result's revision. An increment by zero without a transaction id is a no-op and hands
  back the object it was given.
\<close>

datatype incField = IncField int "nat option"

fun inc_apply :: "incField \<Rightarrow> int obj option \<Rightarrow> int outcome" where
  "inc_apply m None = Unchanged"
| "inc_apply (IncField k None) (Some ob) =
     (if k = 0 then Unchanged else Fresh (ob\<lparr>content := content ob + k\<rparr>))"
| "inc_apply (IncField k (Some t)) (Some ob) =
     Fresh (ob\<lparr>rev_prop := Some (Rev t), content := content ob + k\<rparr>)"

fun inc_amount :: "incField \<Rightarrow> int" where
  "inc_amount (IncField k t) = k"

definition inc_squash :: "int obj option \<Rightarrow> incField list \<Rightarrow> incField" where
  "inc_squash doc ms = IncField (sum_list (map inc_amount ms)) None"

fun inc_assign :: "nat \<Rightarrow> incField \<Rightarrow> incField" where
  "inc_assign t (IncField k u) = IncField k (Some t)"

definition counter :: "(incField, int) algebra" where
  "counter = \<lparr>m_apply = inc_apply, m_squash = inc_squash, m_assignTransactionId = inc_assign\<rparr>"

definition doc0 :: "int obj" where
  "doc0 = \<lparr>rev_prop = Some (Rev 1), content = 0\<rparr>"

definition fresh0 :: "(incField, int, unit) bdoc" where
  \<comment> \<open>\<^verbatim>\<open>new BufferedDocument({_rev: 1, count: 0})\<close>, the object at address 0\<close>
  "fresh0 = construct (\<lambda>a. doc0) 1 (Some 0)"

definition wired :: "(incField, int, unit) bdoc" where
  \<comment> \<open>the same engine once the caller has assigned all four handlers\<close>
  "wired = outside (\<lambda>a. doc0) 1 (Some 0) True True True True fresh0"

definition edited :: "(incField, int, unit) bdoc" where
  \<comment> \<open>after \<^verbatim>\<open>add(incField("count", 1))\<close>\<close>
  "edited = add counter (IncField 1 None) wired"

definition committed :: "(incField, int, unit) bdoc" where
  \<comment> \<open>after \<^verbatim>\<open>commit()\<close>: the commit is with the transport\<close>
  "committed = state_of (commit counter edited)"

definition deleted_under :: "(incField, int, unit) bdoc" where
  \<comment> \<open>the tracker's snapshot has become \<^verbatim>\<open>null\<close> while one edit is buffered\<close>
  "deleted_under = outside (heap edited) (nxt edited) None True True True True edited"

definition deleted_idle :: "(incField, int, unit) bdoc" where
  \<comment> \<open>the tracker's snapshot has become \<^verbatim>\<open>null\<close> while nothing is pending\<close>
  "deleted_idle = outside (heap wired) (nxt wired) None True True True True wired"

definition remote2 :: "(incField, int, unit) bdoc" where
  \<comment> \<open>one edit is buffered and notified; the tracker's snapshot is now a new object at
      address 2, \<^verbatim>\<open>{_rev: 2, count: 10}\<close>\<close>
  "remote2 = outside ((heap edited)(2 := \<lparr>rev_prop = Some (Rev 2), content = 10\<rparr>)) 3 (Some 2)
     True True True True edited"

definition quiet :: "(incField, int, unit) bdoc" where
  \<comment> \<open>the same with no \<^verbatim>\<open>onRebase\<close> handler assigned\<close>
  "quiet = outside (heap remote2) (nxt remote2) (EDGE remote2) True False True True remote2"

definition revless :: "(incField, int, unit) bdoc" where
  \<comment> \<open>an engine built on \<^verbatim>\<open>{count: 0}\<close>, a document with no \<^verbatim>\<open>_rev\<close>, all handlers
      assigned, one edit buffered\<close>
  "revless = add counter (IncField 1 None)
     (outside (\<lambda>a. \<lparr>rev_prop = None, content = 0\<rparr>) 1 (Some 0) True True True True
        (construct (\<lambda>a. \<lparr>rev_prop = None, content = 0\<rparr>) 1 (Some 0)))"

definition unconfigured :: "(incField, int, unit) bdoc" where
  \<comment> \<open>one edit is buffered and no \<^verbatim>\<open>commitHandler\<close> is assigned\<close>
  "unconfigured = outside (heap edited) (nxt edited) (EDGE edited) True True True False edited"

subsection \<open>A second algebra, with deletion and creation\<close>

text \<open>
  A mutation is a list of steps, as the squash of several mutations is one mutation, with
  an optional transaction id that becomes the result's revision. Deleting turns the
  document into \<^verbatim>\<open>null\<close>; creating makes a document where there is none; incrementing
  needs a document. A mutation that changes nothing hands back the object it was given.
\<close>

datatype step = Inc int | Del | Create int

type_synonym edit = "step list \<times> nat option"

fun step_val :: "step \<Rightarrow> int obj option \<Rightarrow> int obj option" where
  "step_val (Inc k) None = None"
| "step_val (Inc k) (Some ob) = Some (ob\<lparr>content := content ob + k\<rparr>)"
| "step_val Del v = None"
| "step_val (Create k) None = Some \<lparr>rev_prop = None, content = k\<rparr>"
| "step_val (Create k) (Some ob) = Some ob"

definition stamp :: "nat option \<Rightarrow> int obj option \<Rightarrow> int obj option" where
  "stamp t v = (case t of None \<Rightarrow> v | Some k \<Rightarrow> map_option (\<lambda>ob. ob\<lparr>rev_prop := Some (Rev k)\<rparr>) v)"

definition edit_apply :: "edit \<Rightarrow> int obj option \<Rightarrow> int outcome" where
  "edit_apply m v =
     (let w = stamp (snd m) (foldl (\<lambda>u st. step_val st u) v (fst m))
      in if w = v then Unchanged else (case w of None \<Rightarrow> Null | Some ob \<Rightarrow> Fresh ob))"

definition edit_squash :: "int obj option \<Rightarrow> edit list \<Rightarrow> edit" where
  "edit_squash doc ms = (concat (map fst ms), None)"

definition edit_assign :: "nat \<Rightarrow> edit \<Rightarrow> edit" where
  "edit_assign t m = (fst m, Some t)"

definition editor :: "(edit, int) algebra" where
  "editor = \<lparr>m_apply = edit_apply, m_squash = edit_squash, m_assignTransactionId = edit_assign\<rparr>"

definition first_edit :: "edit commit" where
  \<comment> \<open>commit A: one increment\<close>
  "first_edit = new_Commit [([Inc 1], None)]"

definition sending :: "(edit, int, unit) bdoc" where
  \<comment> \<open>an engine built on \<^verbatim>\<open>{_rev: 1, count: 0}\<close> with all four handlers assigned, after
      \<^verbatim>\<open>add\<close> of an increment and \<^verbatim>\<open>commit()\<close>: commit A is with the transport\<close>
  "sending = state_of (commit editor (add editor ([Inc 1], None)
     (outside (\<lambda>a. doc0) 1 (Some 0) True True True True (construct (\<lambda>a. doc0) 1 (Some 0)))))"

definition locally_deleted :: "(edit, int, unit) bdoc" where
  \<comment> \<open>then the caller deletes the document and commits: commit B is queued behind A\<close>
  "locally_deleted = state_of (commit editor (add editor ([Del], None) sending))"

definition recreated :: "(edit, int, unit) bdoc" where
  \<comment> \<open>or else, with A in flight, the tracker's snapshot becomes \<^verbatim>\<open>null\<close>, the tracker
      asks for a rebase, and the caller creates the document anew\<close>
  "recreated = add editor ([Create 5], None)
     (handleDocRebase editor () (outside (heap sending) (nxt sending) None True True True True sending))"

section \<open>Properties\<close>

lemmas ev = wired_def edited_def committed_def fresh0_def construct_def outside_def add_def
  apply_ref_def counter_def val_def doc0_def emit_def handleDocMutation_def adopt_def purge_def
  handleDocumentDeleted_def rebase_def recompute_def applyAll_def copy_rev_def isEqual_def
  commit_def performCommits_def cycleCommitter_def state_of_def new_Commit_def
  commit_squash_def inc_squash_def commit_apply_def read_rev_def write_rev_def failure_def
  success_def timeout_def active_loops_def deleted_under_def deleted_idle_def
  unconfigured_def remote2_def quiet_def revless_def Let_def

subsection \<open>What each operation leaves alone\<close>

lemma emit_fields [simp]:
  "heap (emit es s) = heap s" "nxt (emit es s) = nxt s" "EDGE (emit es s) = EDGE s"
  "LOCAL (emit es s) = LOCAL s" "commits (emit es s) = commits s"
  "mutations (emit es s) = mutations s" "committerRunning (emit es s) = committerRunning s"
  "onMutation (emit es s) = onMutation s" "onRebase (emit es s) = onRebase s"
  "onDelete (emit es s) = onDelete s" "commitHandler (emit es s) = commitHandler s"
  "inflight (emit es s) = inflight s" "timers (emit es s) = timers s"
  "entropy (emit es s) = entropy s" "trace (emit es s) = trace s @ es"
  by (simp_all add: emit_def)

lemma hdd_loops [simp]:
  "inflight (handleDocumentDeleted s) = inflight s" "timers (handleDocumentDeleted s) = timers s"
  "committerRunning (handleDocumentDeleted s) = committerRunning s"
  by (simp_all add: handleDocumentDeleted_def)

lemma purge_loops [simp]:
  "inflight (purge s) = inflight s" "timers (purge s) = timers s"
  "committerRunning (purge s) = committerRunning s"
  by (simp_all add: purge_def)

lemma rebase_loops [simp]:
  "inflight (rebase A s) = inflight s" "timers (rebase A s) = timers s"
  "committerRunning (rebase A s) = committerRunning s"
  by (simp_all add: rebase_def Let_def split: prod.splits)

lemma add_loops [simp]:
  "inflight (add A m s) = inflight s" "timers (add A m s) = timers s"
  "committerRunning (add A m s) = committerRunning s"
  "commitHandler (add A m s) = commitHandler s"
  by (simp_all add: add_def split: prod.splits)

lemma hdm_loops [simp]:
  "inflight (handleDocMutation A msg s) = inflight s" "timers (handleDocMutation A msg s) = timers s"
  "committerRunning (handleDocMutation A msg s) = committerRunning s"
  by (simp_all add: handleDocMutation_def adopt_def)

lemma reset_loops [simp]:
  "inflight (reset A d s) = inflight s" "timers (reset A d s) = timers s"
  "committerRunning (reset A d s) = committerRunning s"
  by (simp_all add: reset_def)

lemma one_member:
  "c \<in> set xs \<Longrightarrow> length xs + length ys \<le> Suc 0 \<Longrightarrow> xs = [c] \<and> ys = []"
  by (cases xs) auto

lemma one_timer:
  "ys \<noteq> [] \<Longrightarrow> length xs + length ys \<le> Suc 0 \<Longrightarrow> xs = [] \<and> length ys = 1"
  by (cases ys) auto

lemma in_flight_alone:
  assumes "single_flight s" "c \<in> set (inflight s)"
  shows "inflight s = [c]" "timers s = []" "committerRunning s"
  using assms one_member [of c "inflight s" "timers s"]
  by (auto simp: single_flight_def active_loops_def split: if_splits)

lemma timer_alone:
  assumes "single_flight s" "timers s \<noteq> []"
  shows "inflight s = []" "length (timers s) = 1" "committerRunning s"
  using assms one_timer [of "timers s" "inflight s"]
  by (auto simp: single_flight_def active_loops_def split: if_splits)

lemma cycle_returns:
  "commitHandler s \<Longrightarrow> \<not> isl (cycleCommitter A s)"
  by (simp add: cycleCommitter_def Let_def split: list.splits)

lemma cycle_single_flight:
  "active_loops s = 0 \<Longrightarrow> single_flight (state_of (cycleCommitter A s))"
  by (simp add: cycleCommitter_def state_of_def single_flight_def active_loops_def
      Let_def split: list.splits)

lemma reachable_single_flight: "reachable A s \<Longrightarrow> single_flight s"
proof (induction rule: reachable.induct)
  case (r_construct h n doc)
  then show ?case by (simp add: single_flight_def active_loops_def construct_def)
next
  case (r_outside s h n e b1 b2 b3 b4)
  then show ?case by (simp add: single_flight_def active_loops_def outside_def)
next
  case (r_add s m)
  then show ?case by (simp add: single_flight_def active_loops_def)
next
  case (r_arrive s m)
  then show ?case by (simp add: single_flight_def active_loops_def arrive_def)
next
  case (r_commit s)
  let ?moved = "s\<lparr>commits := commits s @ [new_Commit (mutations s)], mutations := []\<rparr>"
  have "single_flight ?moved"
    using r_commit.IH by (simp add: single_flight_def active_loops_def)
  moreover have "single_flight (state_of (cycleCommitter A ?moved))" if "\<not> committerRunning s"
    using that r_commit.IH
    by (intro cycle_single_flight) (simp add: single_flight_def active_loops_def)
  ultimately show ?case
    using r_commit.IH by (simp add: commit_def performCommits_def state_of_def)
next
  case (r_performCommits s)
  have "single_flight (state_of (cycleCommitter A s))" if "\<not> committerRunning s"
    using that r_performCommits.IH
    by (intro cycle_single_flight) (simp add: single_flight_def)
  then show ?case
    using r_performCommits.IH by (simp add: performCommits_def state_of_def)
next
  case (r_reset s doc)
  then show ?case by (simp add: single_flight_def active_loops_def)
next
  case (r_handleDocMutation s msg)
  then show ?case by (simp add: single_flight_def active_loops_def)
next
  case (r_handleDocRebase s msg)
  then show ?case by (simp add: single_flight_def active_loops_def handleDocRebase_def)
next
  case (r_success s c)
  from in_flight_alone [OF r_success.IH r_success.hyps(2)] show ?case
    unfolding success_def by (intro cycle_single_flight) (simp add: active_loops_def)
next
  case (r_failure s c)
  from in_flight_alone [OF r_failure.IH r_failure.hyps(2)] show ?case
    by (simp add: failure_def single_flight_def active_loops_def Let_def)
next
  case (r_timeout s)
  from timer_alone [OF r_timeout.IH r_timeout.hyps(2)] show ?case
    unfolding timeout_def by (intro cycle_single_flight) (simp add: active_loops_def)
qed

lemma reachable_committed: "reachable counter committed"
  unfolding committed_def edited_def wired_def fresh0_def
  by (intro reachable.intros)

subsection \<open>The committer\<close>

text \<open>
  C7. \<^verbatim>\<open>performCommits()\<close> throws the configuration error exactly when no
  \<^verbatim>\<open>commitHandler\<close> is assigned, and then leaves the state as it was; with a handler
  and a committer already running it returns without doing anything; and in every state
  the engine can reach, at most one committer loop is alive (a loop being alive while the
  transport owes it an answer or its retry timer is pending).
\<close>

theorem performCommits_single_flight:
  "(performCommits A s = Inl (NoCommitHandler, s)) = (\<not> commitHandler s) \<and>
   isl (performCommits A s) = (\<not> commitHandler s) \<and>
   (commitHandler s \<and> committerRunning s \<longrightarrow> performCommits A s = Inr s) \<and>
   (reachable A s \<longrightarrow> active_loops s \<le> 1)"
proof -
  have "cycleCommitter A s \<noteq> Inl (NoCommitHandler, s)" if "commitHandler s"
    using cycle_returns [OF that, of A] by (cases "cycleCommitter A s") auto
  then show ?thesis
    using reachable_single_flight [of A s] cycle_returns [of s A]
    by (auto simp: performCommits_def single_flight_def split: if_splits)
qed

theorem performCommits_single_flight_witness:
  "commitHandler committed \<and> committerRunning committed \<and>
   performCommits counter committed = Inr committed \<and> active_loops committed = 1"
  using performCommits_single_flight [of counter committed] reachable_committed
  by (simp add: ev)

text \<open>
  C8. \<^verbatim>\<open>commit()\<close> with an empty buffer returns at once: the state, and with it the
  commit queue and the trace of notifications, is unchanged, whether or not a
  \<^verbatim>\<open>commitHandler\<close> is assigned.
\<close>

theorem commit_empty_buffer_noop:
  "mutations s = [] \<Longrightarrow> commit A s = Inr s"
  by (simp add: commit_def)

theorem commit_empty_buffer_noop_witness:
  "mutations wired = [] \<and> commit counter wired = Inr wired"
  using commit_empty_buffer_noop [of wired counter]
  by (simp add: ev)

text \<open>
  C9 (amended). \<^verbatim>\<open>commit()\<close> on a non-empty buffer empties the buffer, appends one new
  Commit holding the buffer's former mutations, in order and with zero tries, at the tail of
  the queue, leaves the optimistic snapshot and the store untouched, and then calls
  \<^verbatim>\<open>performCommits\<close>: without a \<^verbatim>\<open>commitHandler\<close> that call throws (after the move);
  with a handler and no committer running it takes the head of the queue off again and
  hands it to the transport, so the queue that \<^verbatim>\<open>commit()\<close> leaves behind is the old
  queue with the new Commit appended and, in that case, its head removed.
\<close>

theorem commit_moves_buffer_to_queue:
  "mutations s \<noteq> [] \<Longrightarrow>
   mutations (state_of (commit A s)) = [] \<and>
   LOCAL (state_of (commit A s)) = LOCAL s \<and>
   heap (state_of (commit A s)) = heap s \<and>
   isl (commit A s) = (\<not> commitHandler s) \<and>
   commits (state_of (commit A s)) =
     (if commitHandler s \<and> \<not> committerRunning s
      then tl (commits s @ [new_Commit (mutations s)])
      else commits s @ [new_Commit (mutations s)]) \<and>
   inflight (state_of (commit A s)) =
     (if commitHandler s \<and> \<not> committerRunning s
      then inflight s @ [hd (commits s @ [new_Commit (mutations s)])]
      else inflight s) \<and>
   c_mutations (new_Commit (mutations s)) = mutations s \<and>
   tries (new_Commit (mutations s)) = 0"
  by (cases "commits s")
     (simp_all add: commit_def performCommits_def cycleCommitter_def state_of_def new_Commit_def
        Let_def)

theorem commit_moves_buffer_to_queue_witness:
  "mutations edited \<noteq> [] \<and> commits (state_of (commit counter edited)) = [] \<and>
   inflight (state_of (commit counter edited)) = [new_Commit [IncField 1 None]] \<and>
   commits (state_of (commit counter unconfigured))
     = [new_Commit [IncField 1 None]]"
  using commit_moves_buffer_to_queue [of edited counter]
    commit_moves_buffer_to_queue [of unconfigured counter]
  by (simp add: ev)

text \<open>
  C9 as stated fails when the committer is idle: one edit is buffered and the queue is
  empty; after \<^verbatim>\<open>commit()\<close> the queue is still empty, the new Commit is with the
  transport.
\<close>

theorem commit_dequeues_at_once:
  "mutations edited = [IncField 1 None] \<and> commits edited = [] \<and>
   commits (state_of (commit counter edited)) = [] \<and>
   inflight (state_of (commit counter edited)) = [\<lparr>c_mutations = [IncField 1 None], tries = 0\<rparr>]"
  by (simp add: ev)

lemma attempts_emit [simp]: "attempts (emit es s) = attempts s @ concat (map transported es)"
  by (simp add: attempts_def)

lemma attempts_update [simp]:
  "attempts (s\<lparr>commits := cs\<rparr>) = attempts s"
  "attempts (s\<lparr>mutations := ms\<rparr>) = attempts s"
  "attempts (s\<lparr>inflight := fs\<rparr>) = attempts s"
  "attempts (s\<lparr>timers := ts\<rparr>) = attempts s"
  "attempts (s\<lparr>committerRunning := b\<rparr>) = attempts s"
  "attempts (s\<lparr>entropy := k\<rparr>) = attempts s"
  "attempts (s\<lparr>heap := h\<rparr>) = attempts s"
  "attempts (s\<lparr>nxt := n\<rparr>) = attempts s"
  "attempts (s\<lparr>LOCAL := r\<rparr>) = attempts s"
  "attempts (s\<lparr>EDGE := e\<rparr>) = attempts s"
  by (simp_all add: attempts_def)

lemma staged_emit [simp]: "staged (emit es s) = staged s @ concat (map staging es)"
  by (simp add: staged_def)

lemma staged_update [simp]:
  "staged (s\<lparr>commits := cs\<rparr>) = staged s"
  "staged (s\<lparr>mutations := ms\<rparr>) = staged s"
  "staged (s\<lparr>inflight := fs\<rparr>) = staged s"
  "staged (s\<lparr>timers := ts\<rparr>) = staged s"
  "staged (s\<lparr>committerRunning := b\<rparr>) = staged s"
  "staged (s\<lparr>entropy := k\<rparr>) = staged s"
  "staged (s\<lparr>heap := h\<rparr>) = staged s"
  "staged (s\<lparr>nxt := n\<rparr>) = staged s"
  "staged (s\<lparr>LOCAL := r\<rparr>) = staged s"
  "staged (s\<lparr>EDGE := e\<rparr>) = staged s"
  by (simp_all add: staged_def)

lemma add_queue [simp]:
  "commits (add A m s) = commits s" "attempts (add A m s) = attempts s"
  "staged (add A m s) = staged s"
  by (simp_all add: add_def split: prod.splits)

lemma rebase_queue:
  assumes "EDGE s \<noteq> None"
  shows "commits (rebase A s) = commits s" "attempts (rebase A s) = attempts s"
    "staged (rebase A s) = staged s"
proof -
  have "purge s = s"
    using assms by (auto simp: purge_def)
  then show "commits (rebase A s) = commits s" "attempts (rebase A s) = attempts s"
    "staged (rebase A s) = staged s"
    by (simp_all add: rebase_def Let_def split: prod.splits)
qed

lemma waiting_rebase:
  "waiting c st as s \<Longrightarrow> EDGE s \<noteq> None \<Longrightarrow> waiting c st as (rebase A s)"
  by (simp add: waiting_def rebase_queue)

lemma waiting_snapshot:
  "waiting c st as s \<Longrightarrow> waiting c st as (s\<lparr>heap := h, nxt := n, EDGE := e\<rparr>)"
  by (simp add: waiting_def)

lemma waiting_mutated:
  assumes "waiting c st as s" "EDGE s \<noteq> None"
  shows "waiting c st as (handleDocMutation A msg s)"
proof -
  from assms(1) have "commits s \<noteq> []"
    by (auto simp: waiting_def)
  then have "purge (adopt msg s) = s"
    using assms(2) by (auto simp: adopt_def purge_def)
  then show ?thesis
    using assms by (simp add: handleDocMutation_def waiting_rebase)
qed

lemma waiting_reset:
  assumes "waiting c st as s" "doc \<noteq> None"
  shows "waiting c st as (reset A doc s)"
proof -
  have "waiting c st as (emit [TrackerReset doc] (s\<lparr>EDGE := doc\<rparr>))"
    using assms(1) by (simp add: waiting_def)
  then show ?thesis
    unfolding reset_def using assms(2) by (intro waiting_rebase) simp_all
qed

lemma exec_waiting:
  "waiting c st as s \<Longrightarrow> \<not> deletes x \<Longrightarrow> waiting c st as (exec A x s)"
proof (cases x)
  case (Add m)
  assume "waiting c st as s"
  then show ?thesis using Add by (simp add: waiting_def)
next
  case Commit
  assume "waiting c st as s"
  then show ?thesis using Commit
    by (auto simp: waiting_def commit_def performCommits_def state_of_def split: list.splits)
next
  case PerformCommits
  assume "waiting c st as s"
  then show ?thesis using PerformCommits
    by (auto simp: waiting_def performCommits_def state_of_def)
next
  case (Arrive m)
  assume "waiting c st as s"
  then show ?thesis using Arrive by (simp add: waiting_def arrive_def)
next
  case (Outside h n e b1 b2 b3 b4)
  assume "waiting c st as s"
  then show ?thesis using Outside by (simp add: waiting_def outside_def attempts_def staged_def)
next
  case (Reset doc)
  assume "waiting c st as s" "\<not> deletes x"
  then show ?thesis using Reset by (simp add: waiting_reset)
next
  case (Mutated h n e msg)
  assume "waiting c st as s" "\<not> deletes x"
  then show ?thesis using Mutated
    by (simp add: waiting_mutated waiting_snapshot)
next
  case (Moved h n e msg)
  assume "waiting c st as s" "\<not> deletes x"
  then show ?thesis using Moved
    by (simp add: handleDocRebase_def waiting_rebase waiting_snapshot)
qed

lemma run_waiting:
  "waiting c st as s \<Longrightarrow> \<forall>x\<in>set xs. \<not> deletes x \<Longrightarrow> waiting c st as (run A xs s)"
  unfolding run_def
  by (induction xs arbitrary: s) (simp_all add: exec_waiting)

lemma failure_waiting:
  assumes "reachable A s" "c \<in> set (inflight s)" "LOCAL s \<noteq> None"
  shows "waiting (c\<lparr>tries := tries c + 1\<rparr>) (staged s) (attempts s) (failure c s)"
proof -
  have "single_flight s" using assms(1) by (rule reachable_single_flight)
  from in_flight_alone [OF this assms(2)] assms(3) show ?thesis
    by (simp add: waiting_def failure_def Let_def)
qed

lemma timeout_waiting:
  assumes "waiting c st as s"
  shows "timers s = [1000]" "staged s = st" "attempts s = as"
    "hd (commits s) = c" "inflight s = []"
    "staged (state_of (timeout A s)) = st @ [commit_squash A (entropy s) c (val (heap s) (LOCAL s))]"
    "commitHandler s \<Longrightarrow> timeout A s = Inr (state_of (timeout A s))"
    "commitHandler s \<Longrightarrow> inflight (state_of (timeout A s)) = [c]"
    "commitHandler s \<Longrightarrow>
       attempts (state_of (timeout A s)) = as @ [commit_squash A (entropy s) c (val (heap s) (LOCAL s))]"
  using assms
  by (auto simp: waiting_def timeout_def cycleCommitter_def state_of_def Let_def
      split: list.splits)

text \<open>
  C4 (amended). When the transport reports a failure for commit \<open>c\<close>, the responder puts
  \<open>c\<close> with its tries incremented at the front of the queue exactly when the optimistic
  snapshot \<^verbatim>\<open>this.LOCAL\<close> is not \<^verbatim>\<open>null\<close> at that moment, and drops it otherwise,
  whatever the tracker's snapshot is; it tells the tracker and sets a timer of 1000. If
  \<open>c\<close> was requeued, then whatever happens before the timer fires (calls of the caller,
  changes from outside, notifications of the tracker), as long as no deletion is reported,
  nothing is staged or handed to the transport in between and \<open>c\<close> stays at the head of
  the queue; when the timer fires, the next operation staged is the squash of \<open>c\<close>, and
  with a \<^verbatim>\<open>commitHandler\<close> assigned it is the next one handed to the transport: a
  commit queued after \<open>c\<close> is not attempted before \<open>c\<close> is retried.
\<close>

theorem failure_requeues_at_front:
  "commits (failure c s) =
     (if LOCAL s \<noteq> None then c\<lparr>tries := tries c + 1\<rparr> # commits s else commits s) \<and>
   timers (failure c s) = timers s @ [1000] \<and>
   trace (failure c s) = trace s @ [TrackerFailure] \<and>
   (reachable A s \<and> c \<in> set (inflight s) \<and> LOCAL s \<noteq> None \<and> (\<forall>x\<in>set xs. \<not> deletes x) \<longrightarrow>
      staged (run A xs (failure c s)) = staged s \<and>
      attempts (run A xs (failure c s)) = attempts s \<and>
      inflight (run A xs (failure c s)) = [] \<and>
      timers (run A xs (failure c s)) = [1000] \<and>
      hd (commits (run A xs (failure c s))) = c\<lparr>tries := tries c + 1\<rparr> \<and>
      staged (state_of (timeout A (run A xs (failure c s)))) =
        staged s @ [commit_squash A (entropy (run A xs (failure c s))) (c\<lparr>tries := tries c + 1\<rparr>)
                      (val (heap (run A xs (failure c s))) (LOCAL (run A xs (failure c s))))] \<and>
      (commitHandler (run A xs (failure c s)) \<longrightarrow>
         inflight (state_of (timeout A (run A xs (failure c s)))) = [c\<lparr>tries := tries c + 1\<rparr>] \<and>
         attempts (state_of (timeout A (run A xs (failure c s)))) =
           attempts s @ [commit_squash A (entropy (run A xs (failure c s))) (c\<lparr>tries := tries c + 1\<rparr>)
                           (val (heap (run A xs (failure c s))) (LOCAL (run A xs (failure c s))))]))"
proof -
  have responder:
    "commits (failure c s) =
       (if LOCAL s \<noteq> None then c\<lparr>tries := tries c + 1\<rparr> # commits s else commits s)"
    "timers (failure c s) = timers s @ [1000]"
    "trace (failure c s) = trace s @ [TrackerFailure]"
    by (simp_all add: failure_def Let_def)
  show ?thesis
  proof (cases "reachable A s \<and> c \<in> set (inflight s) \<and> LOCAL s \<noteq> None \<and> (\<forall>x\<in>set xs. \<not> deletes x)")
    case True
    then have "waiting (c\<lparr>tries := tries c + 1\<rparr>) (staged s) (attempts s) (failure c s)"
      by (intro failure_waiting [of A]) simp_all
    with True
    have "waiting (c\<lparr>tries := tries c + 1\<rparr>) (staged s) (attempts s) (run A xs (failure c s))"
      by (intro run_waiting) simp_all
    from timeout_waiting [OF this] responder show ?thesis
      by simp
  next
    case False
    with responder show ?thesis
      by blast
  qed
qed

theorem failure_requeues_at_front_witness:
  "reachable counter committed \<and> new_Commit [IncField 1 None] \<in> set (inflight committed) \<and>
   LOCAL committed \<noteq> None \<and>
   \<not> deletes (Add (IncField 2 None) :: (incField, int, unit) call) \<and>
   \<not> deletes (Commit :: (incField, int, unit) call) \<and>
   \<not> deletes (Mutated (\<lambda>a. doc0) 1 (Some 0) () :: (incField, int, unit) call) \<and>
   commits (failure (new_Commit [IncField 1 None]) committed) = [\<lparr>c_mutations = [IncField 1 None], tries = 1\<rparr>] \<and>
   attempts (run counter [Add (IncField 2 None), Commit, Mutated (\<lambda>a. doc0) 1 (Some 0) ()]
      (failure (new_Commit [IncField 1 None]) committed))
     = [IncField 1 (Some 0)] \<and>
   commits (run counter [Add (IncField 2 None), Commit, Mutated (\<lambda>a. doc0) 1 (Some 0) ()]
      (failure (new_Commit [IncField 1 None]) committed))
     = [\<lparr>c_mutations = [IncField 1 None], tries = 1\<rparr>, \<lparr>c_mutations = [IncField 2 None], tries = 0\<rparr>] \<and>
   commitHandler (run counter [Add (IncField 2 None), Commit, Mutated (\<lambda>a. doc0) 1 (Some 0) ()]
      (failure (new_Commit [IncField 1 None]) committed)) \<and>
   attempts (state_of (timeout counter
      (run counter [Add (IncField 2 None), Commit, Mutated (\<lambda>a. doc0) 1 (Some 0) ()]
         (failure (new_Commit [IncField 1 None]) committed))))
     = [IncField 1 (Some 0), IncField 1 (Some 1)]"
  using failure_requeues_at_front [of "new_Commit [IncField 1 None]" committed counter
      "[Add (IncField 2 None), Commit, Mutated (\<lambda>a. doc0) 1 (Some 0) ()]"] reachable_committed
  by (simp add: ev run_def attempts_def staged_def)

text \<open>
  C4 as stated fails when the optimistic snapshot is \<^verbatim>\<open>null\<close> while the document
  exists. Commit A (an increment) is with the transport; the caller deletes the document
  and commits, so commit B is queued behind A and the optimistic snapshot is \<^verbatim>\<open>null\<close>,
  while the tracker's snapshot is still the object at address 0. A fails: it is not put
  back, the queue holds B alone, and when the timer fires B is staged and handed to the
  transport. A is neither queued nor with the transport any more: it is never retried.
  Conversely, with A in flight, after the tracker's snapshot has become \<^verbatim>\<open>null\<close> and
  the caller has created the document anew, the tracker's snapshot is \<^verbatim>\<open>null\<close> and a
  failing A is put back at the front.
\<close>

theorem failed_commit_dropped_after_local_delete:
  "reachable editor locally_deleted \<and>
   EDGE locally_deleted = Some 0 \<and> LOCAL locally_deleted = None \<and>
   inflight locally_deleted = [first_edit] \<and>
   commits locally_deleted = [new_Commit [([Del], None)]] \<and>
   attempts locally_deleted = [([Inc 1], Some 0)] \<and>
   commits (failure first_edit locally_deleted) = [new_Commit [([Del], None)]] \<and>
   timers (failure first_edit locally_deleted) = [1000] \<and>
   attempts (state_of (timeout editor (failure first_edit locally_deleted))) =
     [([Inc 1], Some 0), ([Del], Some 1)] \<and>
   inflight (state_of (timeout editor (failure first_edit locally_deleted))) =
     [new_Commit [([Del], None)]] \<and>
   commits (state_of (timeout editor (failure first_edit locally_deleted))) = [] \<and>
   reachable editor recreated \<and>
   EDGE recreated = None \<and> LOCAL recreated \<noteq> None \<and> inflight recreated = [first_edit] \<and>
   commits (failure first_edit recreated) = [first_edit\<lparr>tries := 1\<rparr>]"
proof -
  have "reachable editor locally_deleted" "reachable editor recreated"
    unfolding locally_deleted_def recreated_def sending_def
    by (intro reachable.intros)+
  then show ?thesis
    by (simp add: locally_deleted_def recreated_def sending_def first_edit_def editor_def
        edit_apply_def edit_squash_def edit_assign_def stamp_def attempts_def
        construct_def outside_def add_def apply_ref_def val_def doc0_def emit_def
        handleDocRebase_def purge_def handleDocumentDeleted_def rebase_def recompute_def
        applyAll_def copy_rev_def isEqual_def commit_def performCommits_def cycleCommitter_def
        state_of_def new_Commit_def commit_squash_def commit_apply_def read_rev_def
        write_rev_def failure_def timeout_def Let_def)
qed

subsection \<open>Notifications\<close>

text \<open>
  C1. A deletion event should be notified exactly once. With an \<^verbatim>\<open>onDelete\<close> handler
  assigned, one edit buffered and the optimistic snapshot at address 1, the tracker's
  snapshot becomes \<^verbatim>\<open>null\<close> and the tracker reports a mutation: \<^verbatim>\<open>handleDocMutation\<close>
  runs \<^verbatim>\<open>handleDocumentDeleted\<close> and then \<^verbatim>\<open>rebase\<close>, which runs it again before
  it replaces the optimistic snapshot, and \<^verbatim>\<open>onDelete\<close> is called twice with the same
  object. The queue and the buffer are empty afterwards.
\<close>

theorem deletion_notified_twice:
  "LOCAL deleted_under = Some 1 \<and> EDGE deleted_under = None \<and> onDelete deleted_under \<and>
   trace (handleDocMutation counter () deleted_under) =
     trace deleted_under @ [Deleted 1, Deleted 1, Rebased None] \<and>
   commits (handleDocMutation counter () deleted_under) = [] \<and>
   mutations (handleDocMutation counter () deleted_under) = []"
  by (simp add: ev)

text \<open>
  With nothing pending the same report is not notified as a deletion at all: the
  optimistic snapshot is replaced by \<^verbatim>\<open>null\<close> before the test. When the tracker
  asks for a rebase instead, \<^verbatim>\<open>onDelete\<close> is called once in both situations.
\<close>

lemma deletion_unnoticed_when_idle:
  "LOCAL deleted_idle = Some 0 \<and> EDGE deleted_idle = None \<and> onDelete deleted_idle \<and>
   trace (handleDocMutation counter () deleted_idle) = trace deleted_idle @ [Forwarded ()]"
  by (simp add: ev)

lemma deletion_notified_once_by_rebase:
  "trace (handleDocRebase counter () deleted_under) =
     trace deleted_under @ [Deleted 1, Rebased None] \<and>
   trace (handleDocRebase counter () deleted_idle) =
     trace deleted_idle @ [Deleted 0, Rebased None]"
  by (simp add: handleDocRebase_def ev)

lemma add_val: "val (heap (add A m s)) (LOCAL (add A m s)) = apply_val A m (val (heap s) (LOCAL s))"
  by (simp add: add_def apply_ref_def apply_val_def val_def split: outcome.splits)

text \<open>
  C5 (amended). \<^verbatim>\<open>add(mutation)\<close> appends the mutation to the buffer, leaves the queue
  alone, and makes the optimistic snapshot the reference \<^verbatim>\<open>mutation.apply\<close> returns for
  the previous one. It calls \<^verbatim>\<open>onMutation\<close> with the mutation, the new snapshot and
  \<^verbatim>\<open>remote: false\<close> exactly when a handler is assigned and the new reference is not the
  previous one; an application that hands back the object it was given is silent.
\<close>

theorem add_appends_and_notifies:
  "mutations (add A m s) = mutations s @ [m] \<and>
   commits (add A m s) = commits s \<and>
   (LOCAL (add A m s), heap (add A m s), nxt (add A m s)) = apply_ref A m (LOCAL s, heap s, nxt s) \<and>
   val (heap (add A m s)) (LOCAL (add A m s)) = apply_val A m (val (heap s) (LOCAL s)) \<and>
   trace (add A m s) =
     trace s @ (if onMutation s \<and> LOCAL (add A m s) \<noteq> LOCAL s
                then [LocalMutation m (LOCAL (add A m s)) False] else [])"
  using add_val [of A m s]
  by (auto simp: add_def split: prod.splits)

theorem add_appends_and_notifies_witness:
  "trace (add counter (IncField 1 None) wired) = [LocalMutation (IncField 1 None) (Some 1) False] \<and>
   trace (add counter (IncField 0 None) wired) = [] \<and>
   mutations (add counter (IncField 0 None) wired) = [IncField 0 None]"
  using add_appends_and_notifies [of counter "IncField 1 None" wired]
    add_appends_and_notifies [of counter "IncField 0 None" wired]
  by (simp add: ev)

text \<open>
  C5 as stated fails when no \<^verbatim>\<open>onMutation\<close> handler is assigned: the snapshot changes
  from count 0 to count 1 and nothing is notified.
\<close>

theorem add_without_handler_is_silent:
  "val (heap (add counter (IncField 1 None) fresh0)) (LOCAL (add counter (IncField 1 None) fresh0))
     = Some \<lparr>rev_prop = Some (Rev 1), content = 1\<rparr> \<and>
   val (heap fresh0) (LOCAL fresh0) = Some \<lparr>rev_prop = Some (Rev 1), content = 0\<rparr> \<and>
   LOCAL (add counter (IncField 1 None) fresh0) \<noteq> LOCAL fresh0 \<and>
   trace (add counter (IncField 1 None) fresh0) = trace fresh0"
  by (simp add: ev)

lemma rebase_nothing_pending:
  "commits s = [] \<Longrightarrow> mutations s = [] \<Longrightarrow> LOCAL s = EDGE s \<Longrightarrow>
   LOCAL (rebase A s) = EDGE s \<and> trace (rebase A s) = trace s"
  by (cases "EDGE s")
     (simp_all add: rebase_def purge_def handleDocumentDeleted_def recompute_def applyAll_def
        copy_rev_def isEqual_def val_def Let_def)

text \<open>
  C6 (amended). \<^verbatim>\<open>handleDocMutation\<close> always ends by running \<^verbatim>\<open>rebase\<close> (after the
  adoption step and the deletion check). When the queue and the buffer are both empty it
  makes the tracker's snapshot the optimistic snapshot and, if an \<^verbatim>\<open>onMutation\<close>
  handler is assigned, passes the tracker's message on unchanged; nothing else is notified
  and the optimistic snapshot is still the tracker's at the end.
\<close>

theorem handleDocMutation_adopts_then_rebases:
  "handleDocMutation A msg s = rebase A (purge (adopt msg s)) \<and>
   (commits s = [] \<and> mutations s = [] \<longrightarrow>
      LOCAL (adopt msg s) = EDGE s \<and>
      trace (adopt msg s) = trace s @ (if onMutation s then [Forwarded msg] else []) \<and>
      LOCAL (handleDocMutation A msg s) = EDGE s \<and>
      trace (handleDocMutation A msg s) = trace s @ (if onMutation s then [Forwarded msg] else []))"
proof -
  have "LOCAL (handleDocMutation A msg s) = EDGE s \<and>
        trace (handleDocMutation A msg s) = trace s @ (if onMutation s then [Forwarded msg] else [])"
    if "commits s = []" "mutations s = []"
    using that rebase_nothing_pending [of "purge (adopt msg s)" A]
    by (cases "EDGE s") (simp_all add: handleDocMutation_def adopt_def purge_def handleDocumentDeleted_def)
  then show ?thesis
    by (simp add: handleDocMutation_def adopt_def)
qed

theorem handleDocMutation_adopts_then_rebases_witness:
  "commits wired = [] \<and> mutations wired = [] \<and>
   LOCAL (handleDocMutation counter () wired) = EDGE wired \<and>
   trace (handleDocMutation counter () wired) = [Forwarded ()]"
  using handleDocMutation_adopts_then_rebases [of counter "()" wired]
  by (simp add: ev)

text \<open>
  C6 as stated fails when no \<^verbatim>\<open>onMutation\<close> handler is assigned: nothing is pending
  and the message is not passed on.
\<close>

theorem handleDocMutation_without_handler_forwards_nothing:
  "commits fresh0 = [] \<and> mutations fresh0 = [] \<and> trace (handleDocMutation counter () fresh0) = []"
  by (simp add: ev)

subsection \<open>The store under \<open>applyAll\<close>\<close>

lemma applyAll_Nil [simp]: "applyAll A [] cur = cur"
  by (simp add: applyAll_def)

lemma applyAll_Cons [simp]: "applyAll A (m # ms) cur = applyAll A ms (apply_ref A m cur)"
  by (simp add: applyAll_def)

lemma applyAll_append [simp]: "applyAll A (ms @ ms') cur = applyAll A ms' (applyAll A ms cur)"
  by (simp add: applyAll_def)

lemma commits_flat:
  "foldl (\<lambda>doc c. commit_apply A c doc) cur cs = applyAll A (concat (map c_mutations cs)) cur"
  by (induction cs arbitrary: cur) (simp_all add: commit_apply_def)

lemma recompute_flat: "recompute A s = applyAll A (pending s) (EDGE s, heap s, nxt s)"
  by (simp add: recompute_def pending_def commits_flat)

lemma apply_ref_cases:
  "apply_ref A m (r, h, n) = (r, h, n) \<and> apply_val A m (val h r) = val h r
   \<or> (\<exists>ob. apply_ref A m (r, h, n) = (Some n, h(n := ob), Suc n) \<and> apply_val A m (val h r) = Some ob)
   \<or> apply_ref A m (r, h, n) = (None, h, n) \<and> apply_val A m (val h r) = None"
  by (simp add: apply_ref_def apply_val_def split: outcome.splits)

lemma applyAll_val:
  "applyAll A ms (r, h, n) = (r', h', n') \<Longrightarrow>
   val h' r' = foldl (\<lambda>v m. apply_val A m v) (val h r) ms"
proof (induction ms arbitrary: r h n)
  case Nil
  then show ?case by simp
next
  case (Cons m ms)
  from apply_ref_cases [of A m r h n] Cons show ?case
    by (auto simp: val_def)
qed

lemma applyAll_frame:
  "applyAll A ms (r, h, n) = (r', h', n') \<Longrightarrow> n \<le> n' \<and> (\<forall>a<n. h' a = h a)"
proof (induction ms arbitrary: r h n)
  case Nil
  then show ?case by simp
next
  case (Cons m ms)
  from apply_ref_cases [of A m r h n] Cons show ?case
    by (elim disjE exE conjE) (simp, fastforce, simp)
qed

lemma applyAll_allocated:
  "applyAll A ms (r, h, n) = (r', h', n') \<Longrightarrow> allocated n r \<Longrightarrow> allocated n' r'"
proof (induction ms arbitrary: r h n)
  case Nil
  then show ?case by simp
next
  case (Cons m ms)
  from apply_ref_cases [of A m r h n] Cons show ?case
    by (elim disjE exE conjE) (simp_all add: allocated_def)
qed

lemma applyAll_old:
  "applyAll A ms (r, h, n) = (Some b, h', n') \<Longrightarrow> b < n \<Longrightarrow> r = Some b \<and> h' = h \<and> n' = n"
proof (induction ms arbitrary: r h n)
  case Nil
  then show ?case by simp
next
  case (Cons m ms)
  from apply_ref_cases [of A m r h n] Cons show ?case
    by (elim disjE exE conjE) (simp, fastforce, fastforce)
qed

subsection \<open>Rebase\<close>

lemma purge_fields [simp]:
  "LOCAL (purge s) = LOCAL s" "heap (purge s) = heap s" "nxt (purge s) = nxt s"
  "EDGE (purge s) = EDGE s" "onRebase (purge s) = onRebase s"
  by (simp_all add: purge_def handleDocumentDeleted_def)

lemma purge_alive: "EDGE s \<noteq> None \<Longrightarrow> purge s = s"
  by (auto simp: purge_def)

lemma rebase_unfold:
  "recompute A (purge s) = (r, h, n) \<Longrightarrow>
   rebase A s =
     emit (if val (copy_rev (LOCAL s) r h) r \<noteq> val (copy_rev (LOCAL s) r h) (LOCAL s) \<and> onRebase s
           then [Rebased r] else [])
       ((purge s)\<lparr>heap := copy_rev (LOCAL s) r h, nxt := n, LOCAL := r\<rparr>)"
  by (simp add: rebase_def isEqual_def Let_def)

lemma rebase_deleted:
  "EDGE s = None \<Longrightarrow> LOCAL (rebase A s) = None \<and> commits (rebase A s) = [] \<and> mutations (rebase A s) = []"
  by (simp add: rebase_def purge_def handleDocumentDeleted_def recompute_def Let_def)

lemma read_write_rev [simp]: "read_rev (write_rev v ob) = v"
  by (simp add: read_rev_def write_rev_def)

lemma content_write_rev [simp]: "content (write_rev v ob) = content ob"
  by (simp add: write_rev_def)

lemma write_rev_twice [simp]: "write_rev v (write_rev w ob) = write_rev v ob"
  by (simp add: write_rev_def)

lemma write_rev_eq:
  "(x = write_rev (read_rev x) y) = (rev_prop x \<noteq> None \<and> content x = content y)"
  by (cases x; cases y) (auto simp: write_rev_def read_rev_def split: option.splits)

text \<open>
  C10. When the optimistic snapshot before \<^verbatim>\<open>rebase\<close> is an object (at \<open>a\<close>) and the
  recomputed one is an object too (at \<open>b\<close>), \<^verbatim>\<open>rebase\<close> writes the new snapshot's
  \<^verbatim>\<open>_rev\<close> into the old object in place: afterwards the object at \<open>a\<close> is what it was
  with its \<^verbatim>\<open>_rev\<close> replaced, every other existing object is untouched, and the
  comparison that decides on the notification reads the overwritten object. That old
  object can be one the caller was handed before: in the witness it was delivered by
  \<^verbatim>\<open>onMutation\<close> with revision 1 and holds revision 2 after the rebase.
\<close>

theorem rebase_overwrites_rev_in_place:
  assumes "allocated (nxt s) (LOCAL s)" and "LOCAL s = Some a" and "LOCAL (rebase A s) = Some b"
  shows "heap (rebase A s) a = write_rev (read_rev (heap (rebase A s) b)) (heap s a) \<and>
         (\<forall>a'<nxt s. a' \<noteq> a \<longrightarrow> heap (rebase A s) a' = heap s a') \<and>
         trace (rebase A s) =
           trace s @ (if onRebase s \<and> heap (rebase A s) b \<noteq> heap (rebase A s) a
                      then [Rebased (Some b)] else [])"
proof -
  obtain r h n where rc: "recompute A (purge s) = (r, h, n)"
    by (cases "recompute A (purge s)") auto
  have alive: "EDGE s \<noteq> None"
    using assms(3) rebase_deleted [of s A] by auto
  have r: "r = Some b"
    using assms(3) by (simp add: rebase_unfold [OF rc])
  have "n \<ge> nxt s \<and> (\<forall>a<nxt s. h a = heap s a)"
    using rc applyAll_frame [of A "pending (purge s)" "EDGE s" "heap s" "nxt s" r h n]
    by (simp add: recompute_flat)
  moreover have "a < nxt s"
    using assms(1,2) by (simp add: allocated_def)
  ultimately show ?thesis
    using assms(2) alive
    by (simp add: rebase_unfold [OF rc] r copy_rev_def val_def purge_alive)
qed

theorem rebase_overwrites_rev_in_place_witness:
  "LocalMutation (IncField 1 None) (Some 1) False \<in> set (trace remote2) \<and>
   LOCAL remote2 = Some 1 \<and> LOCAL (rebase counter remote2) = Some 3 \<and>
   heap remote2 1 = \<lparr>rev_prop = Some (Rev 1), content = 1\<rparr> \<and>
   heap (rebase counter remote2) 3 = \<lparr>rev_prop = Some (Rev 2), content = 11\<rparr> \<and>
   heap (rebase counter remote2) 1 = \<lparr>rev_prop = Some (Rev 2), content = 1\<rparr>"
proof -
  have a: "allocated (nxt remote2) (LOCAL remote2)" "LOCAL remote2 = Some 1"
    by (simp_all add: allocated_def ev)
  have b: "LOCAL (rebase counter remote2) = Some 3"
    by (simp add: ev)
  have c: "heap (rebase counter remote2) 3 = \<lparr>rev_prop = Some (Rev 2), content = 11\<rparr>"
    by (simp add: ev)
  have d: "heap remote2 1 = \<lparr>rev_prop = Some (Rev 1), content = 1\<rparr>"
    by (simp add: ev)
  have e: "LocalMutation (IncField 1 None) (Some 1) False \<in> set (trace remote2)"
    by (simp add: ev)
  from rebase_overwrites_rev_in_place [OF a b] a b c d e show ?thesis
    by (simp add: write_rev_def read_rev_def)
qed

lemma copy_rev_changed:
  assumes "owns_rev (val (copy_rev old r h) r)"
  shows "(val (copy_rev old r h) r \<noteq> val (copy_rev old r h) old) =
         (\<not> same_content (val (copy_rev old r h) r) (val h old))"
proof (cases old)
  case None
  then show ?thesis by (cases r) (simp_all add: copy_rev_def val_def same_content_def)
next
  case (Some a)
  show ?thesis
  proof (cases r)
    case None
    with Some show ?thesis by (simp add: copy_rev_def val_def same_content_def)
  next
    case (Some b)
    show ?thesis
    proof (cases "b = a")
      case True
      with \<open>old = Some a\<close> Some show ?thesis
        by (simp add: copy_rev_def val_def same_content_def)
    next
      case False
      with \<open>old = Some a\<close> Some assms have "rev_prop (h b) \<noteq> None"
        by (simp add: copy_rev_def val_def owns_rev_def)
      with False \<open>old = Some a\<close> Some show ?thesis
        by (simp add: copy_rev_def val_def same_content_def write_rev_eq)
    qed
  qed
qed

lemma rebase_twice_deleted:
  assumes "EDGE s = None"
  shows "trace (rebase A (rebase A s)) = trace (rebase A s)"
proof -
  have "EDGE (rebase A s) = None"
    using assms by (simp add: rebase_def Let_def split: prod.splits)
  with rebase_deleted [OF assms, of A] rebase_nothing_pending [of "rebase A s" A]
  show ?thesis by simp
qed

lemma rebase_twice_alive:
  assumes wf: "wellformed s"
    and own: "owns_rev (val (heap (rebase A s)) (LOCAL (rebase A s)))"
    and same: "val (heap (rebase A s)) (EDGE s) = val (heap s) (EDGE s)"
    and alive: "EDGE s = Some e"
  shows "trace (rebase A (rebase A s)) = trace (rebase A s)"
proof -
  let ?s1 = "rebase A s"
  obtain r h n where rc: "recompute A (purge s) = (r, h, n)"
    by (cases "recompute A (purge s)") auto
  have ps: "purge s = s" using alive by (simp add: purge_alive)
  define h1 where "h1 = copy_rev (LOCAL s) r h"
  have s1: "heap ?s1 = h1" "nxt ?s1 = n" "LOCAL ?s1 = r" "EDGE ?s1 = Some e"
    "pending ?s1 = pending s" "onRebase ?s1 = onRebase s"
    using alive by (simp_all add: rebase_unfold [OF rc] ps h1_def pending_def)
  have ps1: "purge ?s1 = ?s1" using s1(4) by (simp add: purge_alive)
  obtain r2 h2 n2 where rc2: "recompute A (purge ?s1) = (r2, h2, n2)"
    by (cases "recompute A (purge ?s1)") auto
  have run1: "applyAll A (pending s) (Some e, heap s, nxt s) = (r, h, n)"
    using rc alive by (simp add: recompute_flat ps)
  have run2: "applyAll A (pending s) (Some e, h1, n) = (r2, h2, n2)"
    using rc2 s1 by (simp add: recompute_flat ps1)
  have v1: "val h r = foldl (\<lambda>v m. apply_val A m v) (val (heap s) (Some e)) (pending s)"
    using run1 by (rule applyAll_val)
  have v2: "val h2 r2 = foldl (\<lambda>v m. apply_val A m v) (val h1 (Some e)) (pending s)"
    using run2 by (rule applyAll_val)
  have "val h1 (Some e) = val (heap s) (Some e)"
    using same alive s1(1) by simp
  with v1 v2 have veq: "val h2 r2 = val h r" by simp
  have alloc: "allocated n r"
    using applyAll_allocated [OF run1] wf alive by (simp add: wellformed_def)
  have frame2: "\<forall>a<n. h2 a = h1 a"
    using applyAll_frame [OF run2] by simp
  have own1: "owns_rev (val h1 r)"
    using own s1 by simp
  have "val (copy_rev r r2 h2) r2 = val (copy_rev r r2 h2) r"
  proof (cases r)
    case None
    with veq have "r2 = None" by (simp add: val_def)
    with None show ?thesis by (simp add: copy_rev_def)
  next
    case (Some b)
    with veq obtain b2 where r2: "r2 = Some b2" and hb2: "h2 b2 = h b"
      by (auto simp: val_def)
    show ?thesis
    proof (cases "b2 = b")
      case True
      with Some r2 show ?thesis by simp
    next
      case False
      have "b < n" using alloc Some by (simp add: allocated_def)
      with frame2 have h2b: "h2 b = h1 b" by simp
      have cont: "content (h1 b) = content (h b)"
        by (simp add: h1_def copy_rev_def Some split: option.splits)
      have rev: "rev_prop (h b) \<noteq> None"
      proof (cases "LOCAL s = Some b")
        case True
        with wf have "b < nxt s" by (simp add: wellformed_def allocated_def)
        with applyAll_old [of A "pending s" "Some e" "heap s" "nxt s" b h n] run1 Some
        have "e = b" "h = heap s" by simp_all
        with same alive s1(1) have "h1 b = h b" by (simp add: val_def)
        with own1 Some show ?thesis by (simp add: owns_rev_def val_def)
      next
        case False
        then have "h1 b = h b"
          by (auto simp: h1_def copy_rev_def Some split: option.splits)
        with own1 Some show ?thesis by (simp add: owns_rev_def val_def)
      qed
      have "h b = write_rev (read_rev (h b)) (h1 b)"
        using rev cont by (simp add: write_rev_eq)
      with False Some r2 hb2 h2b show ?thesis
        by (simp add: copy_rev_def val_def)
    qed
  qed
  then show ?thesis
    using s1 by (simp add: rebase_unfold [OF rc2] ps1)
qed

text \<open>
  C3 (amended). Let the snapshots be \<^verbatim>\<open>null\<close> or existing objects, and let the
  recomputed optimistic snapshot be \<^verbatim>\<open>null\<close> or own a \<^verbatim>\<open>_rev\<close> property. Then
  \<^verbatim>\<open>rebase\<close> calls \<^verbatim>\<open>onRebase\<close> (after the deletion handling) exactly when a handler
  is assigned and the recomputed snapshot differs from the previous one with \<^verbatim>\<open>_rev\<close>
  disregarded. And if the run has left the value of the tracker's snapshot as it was, a
  second run right after it notifies nothing.
\<close>

theorem rebase_notifies_iff_content_differs:
  assumes "wellformed s" and "owns_rev (val (heap (rebase A s)) (LOCAL (rebase A s)))"
  shows "trace (rebase A s) =
           trace (purge s) @
             (if onRebase s \<and>
                 \<not> same_content (val (heap (rebase A s)) (LOCAL (rebase A s))) (val (heap s) (LOCAL s))
              then [Rebased (LOCAL (rebase A s))] else []) \<and>
         (val (heap (rebase A s)) (EDGE s) = val (heap s) (EDGE s) \<longrightarrow>
            trace (rebase A (rebase A s)) = trace (rebase A s))"
proof -
  obtain r h n where rc: "recompute A (purge s) = (r, h, n)"
    by (cases "recompute A (purge s)") auto
  have "\<forall>a<nxt s. h a = heap s a"
    using rc applyAll_frame [of A "pending (purge s)" "EDGE s" "heap s" "nxt s" r h n]
    by (simp add: recompute_flat)
  with assms(1) have old: "val h (LOCAL s) = val (heap s) (LOCAL s)"
    by (cases "LOCAL s") (simp_all add: val_def wellformed_def allocated_def)
  have own: "owns_rev (val (copy_rev (LOCAL s) r h) r)"
    using assms(2) by (simp add: rebase_unfold [OF rc])
  have first: "trace (rebase A s) =
           trace (purge s) @
             (if onRebase s \<and>
                 \<not> same_content (val (heap (rebase A s)) (LOCAL (rebase A s))) (val (heap s) (LOCAL s))
              then [Rebased (LOCAL (rebase A s))] else [])"
    using copy_rev_changed [OF own] old
    by (simp add: rebase_unfold [OF rc])
  have second: "trace (rebase A (rebase A s)) = trace (rebase A s)"
    if "val (heap (rebase A s)) (EDGE s) = val (heap s) (EDGE s)"
  proof (cases "EDGE s")
    case None
    then show ?thesis by (rule rebase_twice_deleted)
  next
    case (Some e)
    with assms that show ?thesis by (intro rebase_twice_alive)
  qed
  from first second show ?thesis by blast
qed

lemma wellformed_remote2: "wellformed remote2"
  by (simp add: wellformed_def allocated_def ev)

theorem rebase_notifies_iff_content_differs_witness:
  "wellformed remote2 \<and> onRebase remote2 \<and>
   content (heap remote2 1) = 1 \<and> content (heap (rebase counter remote2) 3) = 11 \<and>
   trace (rebase counter remote2) = trace remote2 @ [Rebased (Some 3)] \<and>
   trace (rebase counter (rebase counter remote2)) = trace (rebase counter remote2)"
proof -
  have a: "owns_rev (val (heap (rebase counter remote2)) (LOCAL (rebase counter remote2)))"
    by (simp add: owns_rev_def ev)
  have b: "val (heap (rebase counter remote2)) (EDGE remote2) = val (heap remote2) (EDGE remote2)"
    by (simp add: ev)
  have c: "LOCAL (rebase counter remote2) = Some 3" "LOCAL remote2 = Some 1" "onRebase remote2"
    "heap (rebase counter remote2) 3 = \<lparr>rev_prop = Some (Rev 2), content = 11\<rparr>"
    "heap remote2 1 = \<lparr>rev_prop = Some (Rev 1), content = 1\<rparr>" "purge remote2 = remote2"
    by (simp_all add: ev)
  from rebase_notifies_iff_content_differs [OF wellformed_remote2 a] b c wellformed_remote2
  show ?thesis
    by (simp add: val_def same_content_def)
qed

text \<open>
  C3 as stated fails in two ways. With no \<^verbatim>\<open>onRebase\<close> handler assigned the count
  changes from 1 to 11 and nothing is notified. On a document that has no \<^verbatim>\<open>_rev\<close>,
  with a handler assigned and one edit buffered, the content is the same before and after
  (count 1), yet \<^verbatim>\<open>rebase\<close> notifies, and a second run right after it notifies again:
  the copy gives the old object a \<^verbatim>\<open>_rev\<close> key holding \<^verbatim>\<open>undefined\<close>, the new
  object has no such key, and \<^verbatim>\<open>isEqual\<close> tells them apart.
\<close>

theorem rebase_handler_and_missing_rev:
  "content (heap quiet 1) = 1 \<and> LOCAL quiet = Some 1 \<and>
   content (heap (rebase counter quiet) 3) = 11 \<and> LOCAL (rebase counter quiet) = Some 3 \<and>
   trace (rebase counter quiet) = trace quiet \<and>
   onRebase revless \<and> LOCAL revless = Some 1 \<and> content (heap revless 1) = 1 \<and>
   LOCAL (rebase counter revless) = Some 2 \<and> content (heap (rebase counter revless) 2) = 1 \<and>
   LOCAL (rebase counter (rebase counter revless)) = Some 3 \<and>
   content (heap (rebase counter (rebase counter revless)) 3) = 1 \<and>
   trace (rebase counter revless) = trace revless @ [Rebased (Some 2)] \<and>
   trace (rebase counter (rebase counter revless)) = trace revless @ [Rebased (Some 2), Rebased (Some 3)]"
  by (simp add: ev)

subsection \<open>Deletion with edits pending, in general\<close>

lemma deletion_notified_twice_whenever_pending:
  assumes "EDGE s = None" "LOCAL s = Some a" "onDelete s" "pending s \<noteq> []"
  shows "trace (handleDocMutation A msg s) =
           trace s @ [Deleted a, Deleted a] @ (if onRebase s then [Rebased None] else [])"
proof -
  have "\<not> (commits s = [] \<and> mutations s = [])"
    using assms(4) by (auto simp: pending_def)
  then have "adopt msg s = s" by (auto simp: adopt_def)
  with assms(1-3) show ?thesis
    by (simp add: handleDocMutation_def purge_def handleDocumentDeleted_def rebase_def
        recompute_def copy_rev_def isEqual_def val_def Let_def)
qed

subsection \<open>The optimistic snapshot as a derived value\<close>

text \<open>
  What this source file decides about the equation of C2: the constructor establishes it,
  every \<^verbatim>\<open>rebase\<close> establishes it again (as long as its write to the old snapshot does
  not hit the tracker's own object), \<^verbatim>\<open>add\<close> keeps it, and so does \<^verbatim>\<open>commit\<close> as
  long as it only moves the buffer into the queue. When the committer takes a commit off
  the queue and stages it, the equation depends on what the tracker does to its snapshot
  in \<^verbatim>\<open>stage\<close> and in the responders, which is not in this file.
\<close>

lemma construct_consistent: "consistent A (construct h n doc)"
  by (simp add: consistent_def construct_def pending_def)

lemma add_consistent:
  assumes "wellformed s" "consistent A s"
  shows "consistent A (add A m s) \<and> wellformed (add A m s)"
proof -
  obtain r h n where ar: "apply_ref A m (LOCAL s, heap s, nxt s) = (r, h, n)"
    by (cases "apply_ref A m (LOCAL s, heap s, nxt s)") auto
  then have run: "applyAll A [m] (LOCAL s, heap s, nxt s) = (r, h, n)" by simp
  have fr: "nxt s \<le> n \<and> (\<forall>a<nxt s. h a = heap s a)"
    using applyAll_frame [OF run] .
  with assms(1) have edge: "val h (EDGE s) = val (heap s) (EDGE s)" "allocated n (EDGE s)"
    by (cases "EDGE s"; simp add: wellformed_def allocated_def val_def)+
  have loc: "allocated n r"
    using applyAll_allocated [OF run] assms(1) by (simp add: wellformed_def)
  have "val h r = apply_val A m (val (heap s) (LOCAL s))"
    using applyAll_val [OF run] by simp
  with assms(2) edge loc show ?thesis
    by (simp add: add_def ar consistent_def pending_def wellformed_def)
qed

lemma adds_keep_derived:
  "wellformed s \<Longrightarrow> consistent A s \<Longrightarrow>
   consistent A (foldl (\<lambda>s m. add A m s) s ms) \<and>
   wellformed (foldl (\<lambda>s m. add A m s) s ms) \<and>
   mutations (foldl (\<lambda>s m. add A m s) s ms) = mutations s @ ms \<and>
   commits (foldl (\<lambda>s m. add A m s) s ms) = commits s \<and>
   EDGE (foldl (\<lambda>s m. add A m s) s ms) = EDGE s"
proof (induction ms arbitrary: s)
  case Nil
  then show ?case by simp
next
  case (Cons m ms)
  have "EDGE (add A m s) = EDGE s" "mutations (add A m s) = mutations s @ [m]"
    by (simp_all add: add_def split: prod.splits)
  with Cons.IH [of "add A m s"] add_consistent [OF Cons.prems, of m] show ?case
    by simp
qed

lemma commit_consistent:
  "consistent A s \<Longrightarrow> commitHandler s \<longrightarrow> committerRunning s \<Longrightarrow> consistent A (state_of (commit A s))"
  by (auto simp: commit_def performCommits_def state_of_def consistent_def pending_def new_Commit_def)

lemma rebase_consistent:
  assumes wf: "wellformed s"
    and same: "val (heap (rebase A s)) (EDGE s) = val (heap s) (EDGE s)"
  shows "consistent A (rebase A s)"
proof -
  obtain r h n where rc: "recompute A (purge s) = (r, h, n)"
    by (cases "recompute A (purge s)") auto
  have run: "applyAll A (pending (purge s)) (EDGE s, heap s, nxt s) = (r, h, n)"
    using rc by (simp add: recompute_flat)
  have fields: "LOCAL (rebase A s) = r" "EDGE (rebase A s) = EDGE s"
    "heap (rebase A s) = copy_rev (LOCAL s) r h" "pending (rebase A s) = pending (purge s)"
    by (simp_all add: rebase_unfold [OF rc] pending_def)
  have v: "val h r = foldl (\<lambda>v m. apply_val A m v) (val (heap s) (EDGE s)) (pending (purge s))"
    using run by (rule applyAll_val)
  have "val (copy_rev (LOCAL s) r h) r = val h r"
  proof (cases r)
    case None
    then show ?thesis by (simp add: val_def)
  next
    case (Some b)
    show ?thesis
    proof (cases "LOCAL s = Some b")
      case True
      with wf have "b < nxt s" by (simp add: wellformed_def allocated_def)
      with applyAll_old [of A "pending (purge s)" "EDGE s" "heap s" "nxt s" b h n] run Some
      have "EDGE s = Some b" "h = heap s" by simp_all
      with same fields(3) Some show ?thesis by simp
    next
      case False
      with Some show ?thesis
        by (auto simp: copy_rev_def val_def split: option.splits)
    qed
  qed
  with v same fields show ?thesis
    by (simp add: consistent_def)
qed

end
